theory Spec2Isabelle
  imports Complex_Main "HOL-Library.AList"
begin

section \<open>Assembly-line balancing: the embedded program\<close>

text \<open>
  The repository holds two scripts, \<^verbatim>\<open>src/line.py\<close> and \<^verbatim>\<open>src/line_balancing.py\<close>.
  Both define \<^verbatim>\<open>compute_positional_weights\<close> and \<^verbatim>\<open>line_balancing_algorithm\<close>; the only
  difference in the engine is that \<^verbatim>\<open>line.py\<close> builds a \<^verbatim>\<open>followers\<close> table before the
  loop. Task identifiers are strings. Durations and the cycle time are Python numbers
  (ints in the demo data, floats from the console); they are modelled as exact rationals.
  Python dictionaries are association lists in insertion order (\<open>AList.update\<close> replaces
  in place or appends, as a dict does), a Python set is a HOL set, and every exception
  the code can raise is a value of \<open>error\<close>. The heuristic is one of the two strings the
  scripts pass, \<^verbatim>\<open>"longest_task_time"\<close> and \<^verbatim>\<open>"ranked_positional_weight"\<close>. The function of
  \<^verbatim>\<open>src/line.py\<close> keeps its name; the one of \<^verbatim>\<open>src/line_balancing.py\<close> carries the suffix
  \<open>_lb\<close>.
\<close>

type_synonym task = string
type_synonym 'v pydict = "(task \<times> 'v) list"

datatype error = KeyError | ValueError | ZeroDivisionError | NetworkXUnfeasible

datatype heuristic = LongestTaskTime | RankedPositionalWeight

subsection \<open>The precedence graph (the part of networkx the code uses)\<close>

record digraph =
  nodes :: "task list"
  edges :: "(task \<times> task) list"

definition add_node :: "digraph \<Rightarrow> task \<Rightarrow> digraph" where
  "add_node G v = (if v \<in> set (nodes G) then G else G\<lparr>nodes := nodes G @ [v]\<rparr>)"

definition add_edge :: "digraph \<Rightarrow> task \<Rightarrow> task \<Rightarrow> digraph" where
  "add_edge G p t =
     (let G1 = add_node (add_node G p) t
      in if (p, t) \<in> set (edges G1) then G1 else G1\<lparr>edges := edges G1 @ [(p, t)]\<rparr>)"

text \<open>
  \<^verbatim>\<open>G.add_nodes_from(tasks); for t, preds in predecessors.items(): for p in preds: G.add_edge(p, t)\<close>
\<close>

definition build_graph :: "task list \<Rightarrow> task list pydict \<Rightarrow> digraph" where
  "build_graph tasks predecessors =
     fold (\<lambda>(t, preds) G. fold (\<lambda>p G'. add_edge G' p t) preds G) predecessors
       (fold (\<lambda>t G. add_node G t) tasks \<lparr>nodes = [], edges = []\<rparr>)"

definition successors :: "digraph \<Rightarrow> task \<Rightarrow> task list" where
  "successors G v = map snd (filter (\<lambda>e. fst e = v) (edges G))"

text \<open>
  \<^verbatim>\<open>nx.topological_sort\<close> is library code: Kahn's algorithm by generations. A node is ready
  when none of its predecessors is still waiting; when nodes remain and none is ready the
  library raises \<^verbatim>\<open>NetworkXUnfeasible\<close>.
\<close>

definition ready_nodes :: "(task \<times> task) list \<Rightarrow> task list \<Rightarrow> task list" where
  "ready_nodes E remaining =
     filter (\<lambda>v. \<forall>e \<in> set E. snd e = v \<longrightarrow> fst e \<notin> set remaining) remaining"

function topological_generations :: "(task \<times> task) list \<Rightarrow> task list \<Rightarrow> error + task list" where
  "topological_generations E remaining =
     (if remaining = [] then Inr []
      else if ready_nodes E remaining = [] then Inl NetworkXUnfeasible
      else (case topological_generations E
                   (filter (\<lambda>v. v \<notin> set (ready_nodes E remaining)) remaining) of
              Inl e \<Rightarrow> Inl e
            | Inr rest \<Rightarrow> Inr (ready_nodes E remaining @ rest)))"
  by pat_completeness auto
termination
proof (relation "measure (\<lambda>(E, remaining). length remaining)")
  show "wf (measure (\<lambda>(E :: (task \<times> task) list, remaining :: task list). length remaining))"
    by simp
next
  fix E :: "(task \<times> task) list" and remaining :: "task list"
  assume "remaining \<noteq> []" and "ready_nodes E remaining \<noteq> []"
  then obtain v where v: "v \<in> set (ready_nodes E remaining)"
    by (cases "ready_nodes E remaining") auto
  then have "v \<in> set remaining"
    by (simp add: ready_nodes_def)
  with v have "length (filter (\<lambda>v. v \<notin> set (ready_nodes E remaining)) remaining) < length remaining"
    by (intro length_filter_less[of v]) auto
  then show "((E, filter (\<lambda>v. v \<notin> set (ready_nodes E remaining)) remaining), (E, remaining))
             \<in> measure (\<lambda>(E, remaining). length remaining)"
    by simp
qed

definition topological_sort :: "digraph \<Rightarrow> error + task list" where
  "topological_sort G = topological_generations (edges G) (nodes G)"

subsection \<open>\<^verbatim>\<open>compute_positional_weights\<close>\<close>

text \<open>\<^verbatim>\<open>{t: times[t] for t in tasks}\<close>: a missing duration raises \<^verbatim>\<open>KeyError\<close>.\<close>

fun init_weights :: "rat pydict \<Rightarrow> task list \<Rightarrow> rat pydict \<Rightarrow> error + rat pydict" where
  "init_weights durations [] pw = Inr pw"
| "init_weights durations (t # ts) pw =
     (case map_of durations t of
        None \<Rightarrow> Inl KeyError
      | Some d \<Rightarrow> init_weights durations ts (AList.update t d pw))"

text \<open>\<^verbatim>\<open>for succ in G.successors(node): pw[node] += pw[succ]\<close>\<close>

fun accumulate :: "task \<Rightarrow> task list \<Rightarrow> rat pydict \<Rightarrow> error + rat pydict" where
  "accumulate node [] pw = Inr pw"
| "accumulate node (succ # ss) pw =
     (case map_of pw node of
        None \<Rightarrow> Inl KeyError
      | Some a \<Rightarrow>
         (case map_of pw succ of
            None \<Rightarrow> Inl KeyError
          | Some b \<Rightarrow> accumulate node ss (AList.update node (a + b) pw)))"

fun accumulate_all :: "digraph \<Rightarrow> task list \<Rightarrow> rat pydict \<Rightarrow> error + rat pydict" where
  "accumulate_all G [] pw = Inr pw"
| "accumulate_all G (node # ns) pw =
     (case accumulate node (successors G node) pw of
        Inl e \<Rightarrow> Inl e
      | Inr pw' \<Rightarrow> accumulate_all G ns pw')"

definition compute_positional_weights ::
  "task list \<Rightarrow> rat pydict \<Rightarrow> task list pydict \<Rightarrow> error + rat pydict" where
  "compute_positional_weights tasks durations predecessors =
     (let G = build_graph tasks predecessors
      in case topological_sort G of
           Inl e \<Rightarrow> Inl e
         | Inr order \<Rightarrow>
            (case init_weights durations tasks [] of
               Inl e \<Rightarrow> Inl e
             | Inr pw \<Rightarrow> accumulate_all G (rev order) pw))"

subsection \<open>Eligibility, ranking and placement\<close>

text \<open>\<^verbatim>\<open>predecessors.get(t, [])\<close>\<close>

definition get_preds :: "task list pydict \<Rightarrow> task \<Rightarrow> task list" where
  "get_preds predecessors t = (case map_of predecessors t of None \<Rightarrow> [] | Some ps \<Rightarrow> ps)"

definition eligible :: "task list pydict \<Rightarrow> task set \<Rightarrow> task \<Rightarrow> bool" where
  "eligible predecessors assigned_tasks t \<longleftrightarrow>
     t \<notin> assigned_tasks \<and> (\<forall>p \<in> set (get_preds predecessors t). p \<in> assigned_tasks)"

text \<open>
  \<^verbatim>\<open>cand.sort(key=lambda t: d[t], reverse=True)\<close>: Python computes every key first (a
  missing one raises \<^verbatim>\<open>KeyError\<close>), then sorts stably, equal keys keeping their order
  also under \<^verbatim>\<open>reverse=True\<close>.
\<close>

fun sort_keys :: "rat pydict \<Rightarrow> task list \<Rightarrow> error + (rat \<times> task) list" where
  "sort_keys d [] = Inr []"
| "sort_keys d (t # ts) =
     (case map_of d t of
        None \<Rightarrow> Inl KeyError
      | Some k \<Rightarrow> (case sort_keys d ts of Inl e \<Rightarrow> Inl e | Inr kts \<Rightarrow> Inr ((k, t) # kts)))"

definition sort_desc :: "rat pydict \<Rightarrow> task list \<Rightarrow> error + task list" where
  "sort_desc d cand =
     (case sort_keys d cand of
        Inl e \<Rightarrow> Inl e
      | Inr kts \<Rightarrow> Inr (map snd (sort_key (\<lambda>kt. - fst kt) kts)))"

definition rank :: "heuristic \<Rightarrow> rat pydict \<Rightarrow> rat pydict \<Rightarrow> task list \<Rightarrow> error + task list" where
  "rank h durations positional_weights cand =
     (case h of
        LongestTaskTime \<Rightarrow> sort_desc durations cand
      | RankedPositionalWeight \<Rightarrow> sort_desc positional_weights cand)"

text \<open>
  The \<^verbatim>\<open>for t in cand\<close> scan: the first candidate that fits is returned with its duration;
  \<open>None\<close> is the case \<^verbatim>\<open>placed == False\<close>.
\<close>

fun first_fit :: "rat pydict \<Rightarrow> rat \<Rightarrow> rat \<Rightarrow> task list \<Rightarrow> error + (task \<times> rat) option" where
  "first_fit durations st cycle [] = Inr None"
| "first_fit durations st cycle (t # ts) =
     (case map_of durations t of
        None \<Rightarrow> Inl KeyError
      | Some d \<Rightarrow> if st + d \<le> cycle then Inr (Some (t, d)) else first_fit durations st cycle ts)"

subsection \<open>The allocation loop\<close>

record alloc_state =
  workstations :: "(nat \<times> task list) list"
  st_times :: "(nat \<times> rat) list"
  assigned :: "task set"
  ws :: nat

definition init_state :: alloc_state where
  "init_state = \<lparr>workstations = [], st_times = [(1, 0)], assigned = {}, ws = 1\<rparr>"

text \<open>
  \<^verbatim>\<open>workstations.setdefault(ws, []).append(t); st_times[ws] += times[t]; assigned.add(t)\<close>
\<close>

definition place :: "alloc_state \<Rightarrow> rat \<Rightarrow> task \<Rightarrow> rat \<Rightarrow> alloc_state" where
  "place s st t d =
     s\<lparr>workstations :=
          AList.update (ws s)
            ((case map_of (workstations s) (ws s) of None \<Rightarrow> [] | Some l \<Rightarrow> l) @ [t])
            (workstations s),
       st_times := AList.update (ws s) (st + d) (st_times s),
       assigned := insert t (assigned s)\<rparr>"

text \<open>\<^verbatim>\<open>ws += 1; st_times[ws] = 0\<close>\<close>

definition open_station :: "alloc_state \<Rightarrow> alloc_state" where
  "open_station s =
     s\<lparr>ws := ws s + 1, st_times := AList.update (ws s + 1) 0 (st_times s)\<rparr>"

datatype step_result = Finished | Raised error | Placed alloc_state | Opened alloc_state

text \<open>One test of the loop condition followed by one run of the loop body.\<close>

definition alloc_step ::
  "task list \<Rightarrow> rat pydict \<Rightarrow> task list pydict \<Rightarrow> rat \<Rightarrow> heuristic \<Rightarrow> rat pydict \<Rightarrow>
   alloc_state \<Rightarrow> step_result" where
  "alloc_step tasks durations predecessors cycle h pw s =
     (if \<not> card (assigned s) < length tasks then Finished
      else let cand = filter (eligible predecessors (assigned s)) tasks
           in if cand = [] then Raised ValueError
              else (case rank h durations pw cand of
                      Inl e \<Rightarrow> Raised e
                    | Inr ranked \<Rightarrow>
                       (case map_of (st_times s) (ws s) of
                          None \<Rightarrow> Raised KeyError
                        | Some st \<Rightarrow>
                           (case first_fit durations st cycle ranked of
                              Inl e \<Rightarrow> Raised e
                            | Inr (Some (t, d)) \<Rightarrow> Placed (place s st t d)
                            | Inr None \<Rightarrow> Opened (open_station s)))))"

partial_function (option) alloc_loop ::
  "task list \<Rightarrow> rat pydict \<Rightarrow> task list pydict \<Rightarrow> rat \<Rightarrow> heuristic \<Rightarrow> rat pydict \<Rightarrow>
   alloc_state \<Rightarrow> (error + alloc_state) option" where
  "alloc_loop tasks durations predecessors cycle h pw s =
     (case alloc_step tasks durations predecessors cycle h pw s of
        Finished \<Rightarrow> Some (Inr s)
      | Raised e \<Rightarrow> Some (Inl e)
      | Placed s' \<Rightarrow> alloc_loop tasks durations predecessors cycle h pw s'
      | Opened s' \<Rightarrow> alloc_loop tasks durations predecessors cycle h pw s')"

subsection \<open>Metrics and the two entry points\<close>

record metrics =
  total_work_content :: rat
  cycle_time :: rat
  min_stations :: int
  actual_stations :: nat
  idle_time :: rat
  efficiency :: rat
  balance_delay :: rat
  station_times :: "(nat \<times> rat) list"

text \<open>
  \<^verbatim>\<open>max(1, int((total_work + cycle_time - 0.01)//cycle_time))\<close>; floor division by a zero
  cycle time raises \<^verbatim>\<open>ZeroDivisionError\<close>. As everywhere in the model the arithmetic is
  exact, with \<open>1/100\<close> for the double nearest to 0.01. The code rounds: from
  \<^verbatim>\<open>total_work + cycle_time\<close> = \<open>2^47\<close> on, the doubles are too far apart and subtracting 0.01
  changes nothing. The property proved of this formula (C7) is therefore stated for the
  inputs of \<open>exact_in_doubles\<close> only.
\<close>

definition compute_min_stations :: "rat \<Rightarrow> rat \<Rightarrow> error + int" where
  "compute_min_stations total_work cycle =
     (if cycle = 0 then Inl ZeroDivisionError
      else Inr (max 1 \<lfloor>(total_work + cycle - 1 / 100) / cycle\<rfloor>))"

definition derive_metrics :: "rat \<Rightarrow> rat \<Rightarrow> int \<Rightarrow> alloc_state \<Rightarrow> error + metrics" where
  "derive_metrics total_work cycle min_st s =
     (let actual = length (workstations s);
          idle = sum_list (map (\<lambda>(n, v). cycle - v) (st_times s))
      in if of_nat actual * cycle = 0 then Inl ZeroDivisionError
         else let eff = total_work / (of_nat actual * cycle) * 100
              in Inr \<lparr>total_work_content = total_work, cycle_time = cycle,
                      min_stations = min_st, actual_stations = actual, idle_time = idle,
                      efficiency = eff, balance_delay = 100 - eff,
                      station_times = st_times s\<rparr>)"

text \<open>
  \<^verbatim>\<open>followers = {t: [] for t in tasks}; for t in tasks: for p in predecessors.get(t, []):
  followers[p].append(t)\<close> (only in \<^verbatim>\<open>src/line.py\<close>; the table is never read afterwards).
\<close>

fun append_follower :: "task \<Rightarrow> task list \<Rightarrow> task list pydict \<Rightarrow> error + task list pydict" where
  "append_follower t [] followers = Inr followers"
| "append_follower t (p # ps) followers =
     (case map_of followers p of
        None \<Rightarrow> Inl KeyError
      | Some l \<Rightarrow> append_follower t ps (AList.update p (l @ [t]) followers))"

fun fill_followers :: "task list pydict \<Rightarrow> task list \<Rightarrow> task list pydict \<Rightarrow> error + task list pydict" where
  "fill_followers predecessors [] followers = Inr followers"
| "fill_followers predecessors (t # ts) followers =
     (case append_follower t (get_preds predecessors t) followers of
        Inl e \<Rightarrow> Inl e
      | Inr followers' \<Rightarrow> fill_followers predecessors ts followers')"

definition build_followers :: "task list \<Rightarrow> task list pydict \<Rightarrow> error + task list pydict" where
  "build_followers tasks predecessors =
     fill_followers predecessors tasks (fold (\<lambda>t f. AList.update t [] f) tasks [])"

text \<open>
  Everything from the positional weights on is the same text in both files: the weights
  (only for the ranked heuristic), the loop, the metrics.
\<close>

definition allocate_and_measure ::
  "task list \<Rightarrow> rat pydict \<Rightarrow> task list pydict \<Rightarrow> rat \<Rightarrow> heuristic \<Rightarrow> rat \<Rightarrow> int \<Rightarrow>
   (error + (nat \<times> task list) list \<times> metrics) option" where
  "allocate_and_measure tasks durations predecessors cycle h total_work min_st =
     (case (case h of
              RankedPositionalWeight \<Rightarrow> compute_positional_weights tasks durations predecessors
            | LongestTaskTime \<Rightarrow> Inr []) of
        Inl e \<Rightarrow> Some (Inl e)
      | Inr pw \<Rightarrow>
         (case alloc_loop tasks durations predecessors cycle h pw init_state of
            None \<Rightarrow> None
          | Some (Inl e) \<Rightarrow> Some (Inl e)
          | Some (Inr s) \<Rightarrow>
             Some (case derive_metrics total_work cycle min_st s of
                     Inl e \<Rightarrow> Inl e
                   | Inr m \<Rightarrow> Inr (workstations s, m))))"

text \<open>\<^verbatim>\<open>line_balancing_algorithm\<close> of \<^verbatim>\<open>src/line.py\<close>.\<close>

definition line_balancing_algorithm ::
  "task list \<Rightarrow> rat pydict \<Rightarrow> task list pydict \<Rightarrow> rat \<Rightarrow> heuristic \<Rightarrow>
   (error + (nat \<times> task list) list \<times> metrics) option" where
  "line_balancing_algorithm tasks durations predecessors cycle h =
     (let total_work_content = sum_list (map snd durations)
      in case compute_min_stations total_work_content cycle of
           Inl e \<Rightarrow> Some (Inl e)
         | Inr min_st \<Rightarrow>
            (case build_followers tasks predecessors of
               Inl e \<Rightarrow> Some (Inl e)
             | Inr followers \<Rightarrow>
                allocate_and_measure tasks durations predecessors cycle h total_work_content min_st))"

text \<open>\<^verbatim>\<open>line_balancing_algorithm\<close> of \<^verbatim>\<open>src/line_balancing.py\<close>: no followers table.\<close>

definition line_balancing_algorithm_lb ::
  "task list \<Rightarrow> rat pydict \<Rightarrow> task list pydict \<Rightarrow> rat \<Rightarrow> heuristic \<Rightarrow>
   (error + (nat \<times> task list) list \<times> metrics) option" where
  "line_balancing_algorithm_lb tasks durations predecessors cycle h =
     (let total_work = sum_list (map snd durations)
      in case compute_min_stations total_work cycle of
           Inl e \<Rightarrow> Some (Inl e)
         | Inr min_st \<Rightarrow>
            allocate_and_measure tasks durations predecessors cycle h total_work min_st)"

section \<open>Vocabulary of the properties\<close>

text \<open>
  A state in which the current station is empty (its time is 0) and the loop body still
  opens another station: no ranked candidate fits an empty station.
\<close>

definition stuck ::
  "task list \<Rightarrow> rat pydict \<Rightarrow> task list pydict \<Rightarrow> rat \<Rightarrow> heuristic \<Rightarrow> rat pydict \<Rightarrow>
   alloc_state \<Rightarrow> bool" where
  "stuck tasks durations predecessors cycle h pw s \<longleftrightarrow>
     map_of (st_times s) (ws s) = Some 0 \<and>
     alloc_step tasks durations predecessors cycle h pw s = Opened (open_station s)"

text \<open>The two dictionaries of the state, read as maps.\<close>

abbreviation station_map :: "alloc_state \<Rightarrow> nat \<Rightarrow> task list option" where
  "station_map s \<equiv> map_of (workstations s)"

abbreviation time_map :: "alloc_state \<Rightarrow> nat \<Rightarrow> rat option" where
  "time_map s \<equiv> map_of (st_times s)"

text \<open>The duration of a task and the load of a station's task sequence.\<close>

definition duration :: "rat pydict \<Rightarrow> task \<Rightarrow> rat" where
  "duration durations t = (case map_of durations t of None \<Rightarrow> 0 | Some d \<Rightarrow> d)"

definition station_load :: "rat pydict \<Rightarrow> task list \<Rightarrow> rat" where
  "station_load durations l = sum_list (map (duration durations) l)"

text \<open>
  Invariants of the loop. The stations partition the assigned tasks; every recorded
  station time is the load of the station and within the cycle time; a predecessor of
  a placed task sits earlier in the same station or in an earlier station; the keys of
  \<^verbatim>\<open>st_times\<close> are \<open>1..ws\<close> and only the current station may still be empty.
\<close>

definition inv_partition :: "task list \<Rightarrow> alloc_state \<Rightarrow> bool" where
  "inv_partition tasks s \<longleftrightarrow>
     assigned s \<subseteq> set tasks \<and> 1 \<le> ws s \<and>
     distinct (map fst (workstations s)) \<and>
     (\<forall>n l. station_map s n = Some l \<longrightarrow> distinct l \<and> l \<noteq> [] \<and> 1 \<le> n \<and> n \<le> ws s) \<and>
     (\<forall>t. t \<in> assigned s \<longleftrightarrow> (\<exists>n l. station_map s n = Some l \<and> t \<in> set l)) \<and>
     (\<forall>n n' l l'. station_map s n = Some l \<longrightarrow> station_map s n' = Some l' \<longrightarrow> n \<noteq> n' \<longrightarrow>
        set l \<inter> set l' = {})"

definition inv_load :: "rat pydict \<Rightarrow> rat \<Rightarrow> alloc_state \<Rightarrow> bool" where
  "inv_load durations cycle s \<longleftrightarrow>
     (\<forall>n l. station_map s n = Some l \<longrightarrow>
        time_map s n = Some (station_load durations l) \<and> station_load durations l \<le> cycle \<and>
        set l \<subseteq> fst ` set durations) \<and>
     (station_map s (ws s) = None \<longrightarrow> time_map s (ws s) = Some 0)"

definition inv_prec :: "task list pydict \<Rightarrow> alloc_state \<Rightarrow> bool" where
  "inv_prec predecessors s \<longleftrightarrow>
     (\<forall>n l i. station_map s n = Some l \<longrightarrow> i < length l \<longrightarrow>
        (\<forall>p \<in> set (get_preds predecessors (l ! i)).
           (\<exists>j<i. l ! j = p) \<or> (\<exists>n' l'. n' < n \<and> station_map s n' = Some l' \<and> p \<in> set l')))"

definition inv_stations :: "task list \<Rightarrow> alloc_state \<Rightarrow> bool" where
  "inv_stations tasks s \<longleftrightarrow>
     distinct (map fst (st_times s)) \<and> fst ` set (st_times s) = {1..ws s} \<and>
     (\<forall>n. 1 \<le> n \<longrightarrow> n < ws s \<longrightarrow> station_map s n \<noteq> None) \<and>
     (station_map s (ws s) = None \<longrightarrow> card (assigned s) < length tasks \<or> workstations s = [])"

definition alloc_inv ::
  "task list \<Rightarrow> rat pydict \<Rightarrow> task list pydict \<Rightarrow> rat \<Rightarrow> alloc_state \<Rightarrow> bool" where
  "alloc_inv tasks durations predecessors cycle s \<longleftrightarrow>
     inv_partition tasks s \<and> inv_load durations cycle s \<and> inv_prec predecessors s \<and>
     inv_stations tasks s"

text \<open>Either script returns the assignment \<open>W\<close> with the metrics \<open>m\<close>.\<close>

definition returns ::
  "task list \<Rightarrow> rat pydict \<Rightarrow> task list pydict \<Rightarrow> rat \<Rightarrow> heuristic \<Rightarrow>
   (nat \<times> task list) list \<Rightarrow> metrics \<Rightarrow> bool" where
  "returns tasks durations predecessors cycle h W m \<longleftrightarrow>
     line_balancing_algorithm tasks durations predecessors cycle h = Some (Inr (W, m)) \<or>
     line_balancing_algorithm_lb tasks durations predecessors cycle h = Some (Inr (W, m))"

text \<open>
  What is left of the total work after the largest whole number of cycle times, and the
  inputs on which the epsilon 0.01 of the minimum-stations formula does no harm: the
  total work is at most one cycle time, or the remainder is at least 0.01, or it is 0 and
  the cycle time is at least 0.01.
\<close>

definition work_remainder :: "rat \<Rightarrow> rat \<Rightarrow> rat" where
  "work_remainder total_work cycle = total_work - of_int \<lfloor>total_work / cycle\<rfloor> * cycle"

definition epsilon_harmless :: "rat \<Rightarrow> rat \<Rightarrow> bool" where
  "epsilon_harmless total_work cycle \<longleftrightarrow>
     total_work \<le> cycle \<or> 1 / 100 \<le> work_remainder total_work cycle \<or>
     (work_remainder total_work cycle = 0 \<and> 1 / 100 \<le> cycle)"

text \<open>
  The durations form a dictionary over exactly the tasks, with positive durations and a
  positive cycle time.
\<close>

definition positive_input :: "task list \<Rightarrow> rat pydict \<Rightarrow> rat \<Rightarrow> bool" where
  "positive_input tasks durations cycle \<longleftrightarrow>
     distinct (map fst durations) \<and> fst ` set durations = set tasks \<and>
     (\<forall>d \<in> snd ` set durations. 0 < d) \<and> 0 < cycle"

text \<open>
  The inputs on which the exact arithmetic of the model is the arithmetic of the code:
  durations and cycle time are multiples of one power of two \<open>1/2^k\<close> small enough that
  every sum up to \<^verbatim>\<open>total_work + cycle_time\<close> is an exact double (below \<open>2^53\<close> in units of
  \<open>1/2^k\<close>), and \<^verbatim>\<open>total_work + cycle_time\<close> is below \<open>2^47\<close>, where the spacing of the doubles
  is still small enough for the subtraction of 0.01 not to be rounded away.
\<close>

definition exact_in_doubles :: "rat pydict \<Rightarrow> rat \<Rightarrow> bool" where
  "exact_in_doubles durations cycle \<longleftrightarrow>
     (\<exists>k :: nat. (\<forall>d \<in> snd ` set durations. 2 ^ k * d \<in> \<int>) \<and> 2 ^ k * cycle \<in> \<int> \<and>
                 2 ^ k * (sum_list (map snd durations) + cycle) < 2 ^ 53) \<and>
     sum_list (map snd durations) + cycle < 2 ^ 47"

text \<open>
  No task of the list is longer than the cycle time, and the measure that decreases with
  every pass of the loop in that case: twice the number of unassigned tasks, plus one
  while the current station is not empty.
\<close>

definition every_task_fits :: "task list \<Rightarrow> rat pydict \<Rightarrow> rat \<Rightarrow> bool" where
  "every_task_fits tasks durations cycle \<longleftrightarrow>
     (\<forall>t \<in> set tasks. \<forall>d. map_of durations t = Some d \<longrightarrow> d \<le> cycle)"

definition progress_measure :: "task list \<Rightarrow> alloc_state \<Rightarrow> nat" where
  "progress_measure tasks s =
     2 * (length tasks - card (assigned s)) + (if time_map s (ws s) = Some 0 then 0 else 1)"

section \<open>Properties of the allocation loop\<close>

lemmas engine_defs =
  line_balancing_algorithm_def line_balancing_algorithm_lb_def compute_min_stations_def
  build_followers_def get_preds_def allocate_and_measure_def alloc_step_def init_state_def
  eligible_def rank_def sort_desc_def place_def open_station_def derive_metrics_def

lemmas graph_defs =
  compute_positional_weights_def build_graph_def add_edge_def add_node_def
  topological_sort_def ready_nodes_def successors_def

lemma sort_keys_Inr: "sort_keys d cand = Inr kts \<Longrightarrow> map snd kts = cand"
  by (induction cand arbitrary: kts) (auto split: option.splits sum.splits)

lemma sort_desc_set: "sort_desc d cand = Inr ranked \<Longrightarrow> set ranked = set cand"
  using sort_keys_Inr[of d cand]
  by (auto simp: sort_desc_def split: sum.splits)

lemma rank_set: "rank h durations pw cand = Inr ranked \<Longrightarrow> set ranked = set cand"
  by (cases h) (auto simp: rank_def dest: sort_desc_set)

lemma first_fit_Some:
  "first_fit durations st cycle ts = Inr (Some (t, d)) \<Longrightarrow>
   t \<in> set ts \<and> map_of durations t = Some d \<and> st + d \<le> cycle"
  by (induction ts) (auto split: option.splits if_splits)

lemma first_fit_None:
  "first_fit durations st cycle ts = Inr None \<Longrightarrow> t \<in> set ts \<Longrightarrow>
   \<exists>d. map_of durations t = Some d \<and> \<not> st + d \<le> cycle"
  by (induction ts) (auto split: option.splits if_splits)

lemma alloc_step_Placed:
  assumes "alloc_step tasks durations predecessors cycle h pw s = Placed s'"
  obtains t d st where "s' = place s st t d" and "t \<in> set tasks"
    and "eligible predecessors (assigned s) t" and "map_of durations t = Some d"
    and "map_of (st_times s) (ws s) = Some st" and "st + d \<le> cycle"
    and "card (assigned s) < length tasks"
proof -
  from assms obtain ranked st t d where c: "card (assigned s) < length tasks"
    and r: "rank h durations pw (filter (eligible predecessors (assigned s)) tasks) = Inr ranked"
    and st: "map_of (st_times s) (ws s) = Some st"
    and ff: "first_fit durations st cycle ranked = Inr (Some (t, d))"
    and s': "s' = place s st t d"
    by (auto simp: alloc_step_def Let_def split: if_splits sum.splits option.splits)
  from first_fit_Some[OF ff] rank_set[OF r]
  have "t \<in> set tasks" "eligible predecessors (assigned s) t" "map_of durations t = Some d"
    "st + d \<le> cycle" by auto
  with that c st s' show thesis by blast
qed

lemma alloc_step_Opened:
  assumes "alloc_step tasks durations predecessors cycle h pw s = Opened s'"
  obtains st t where "s' = open_station s" and "map_of (st_times s) (ws s) = Some st"
    and "card (assigned s) < length tasks"
    and "t \<in> set tasks" and "eligible predecessors (assigned s) t"
    and "\<And>u. u \<in> set tasks \<Longrightarrow> eligible predecessors (assigned s) u \<Longrightarrow>
           \<exists>d. map_of durations u = Some d \<and> \<not> st + d \<le> cycle"
proof -
  let ?cand = "filter (eligible predecessors (assigned s)) tasks"
  from assms obtain ranked st where c: "card (assigned s) < length tasks"
    and ne: "?cand \<noteq> []"
    and r: "rank h durations pw ?cand = Inr ranked"
    and st: "map_of (st_times s) (ws s) = Some st"
    and ff: "first_fit durations st cycle ranked = Inr None"
    and s': "s' = open_station s"
    by (auto simp: alloc_step_def Let_def split: if_splits sum.splits option.splits)
  from ne obtain t where t: "t \<in> set ?cand" by (cases ?cand) auto
  have "\<exists>d. map_of durations u = Some d \<and> \<not> st + d \<le> cycle"
    if "u \<in> set tasks" "eligible predecessors (assigned s) u" for u
    using first_fit_None[OF ff, of u] rank_set[OF r] that by auto
  with that[OF s' st c] t show thesis by auto
qed

lemma stuck_open_station:
  assumes "stuck tasks durations predecessors cycle h pw s"
  shows "stuck tasks durations predecessors cycle h pw (open_station s)"
proof -
  have a: "assigned (open_station s) = assigned s"
    and m: "map_of (st_times (open_station s)) (ws (open_station s)) = Some 0"
    by (simp_all add: open_station_def update_conv')
  from assms have "map_of (st_times s) (ws s) = Some 0"
    and "alloc_step tasks durations predecessors cycle h pw s = Opened (open_station s)"
    by (simp_all add: stuck_def)
  then have "alloc_step tasks durations predecessors cycle h pw (open_station s)
             = Opened (open_station (open_station s))"
    unfolding alloc_step_def a m
    by (auto simp: Let_def split: if_splits sum.splits option.splits)
  with m show ?thesis by (simp add: stuck_def)
qed

lemma alloc_loop_induct [consumes 1, case_names Finished Raised Placed Opened]:
  assumes run: "alloc_loop tasks durations predecessors cycle h pw s = Some r"
    and fin: "\<And>s. alloc_step tasks durations predecessors cycle h pw s = Finished \<Longrightarrow> Q s (Inr s)"
    and err: "\<And>s e. alloc_step tasks durations predecessors cycle h pw s = Raised e \<Longrightarrow> Q s (Inl e)"
    and plc: "\<And>s s' r. alloc_step tasks durations predecessors cycle h pw s = Placed s' \<Longrightarrow>
               alloc_loop tasks durations predecessors cycle h pw s' = Some r \<Longrightarrow> Q s' r \<Longrightarrow> Q s r"
    and opn: "\<And>s s' r. alloc_step tasks durations predecessors cycle h pw s = Opened s' \<Longrightarrow>
               alloc_loop tasks durations predecessors cycle h pw s' = Some r \<Longrightarrow> Q s' r \<Longrightarrow> Q s r"
  shows "Q s r"
proof -
  let ?P = "\<lambda>tasks' durations' predecessors' cycle' h' pw' s r.
      (tasks', durations', predecessors', cycle', h', pw') = (tasks, durations, predecessors, cycle, h, pw) \<longrightarrow>
      alloc_loop tasks durations predecessors cycle h pw s = Some r \<and> Q s r"
  have "?P tasks durations predecessors cycle h pw s r"
  proof (rule alloc_loop.raw_induct[where P = ?P, OF _ run], intro impI)
    fix f tasks' durations' predecessors' cycle' h' pw' s r
    assume IH: "\<And>tasks' durations' predecessors' cycle' h' pw' s r.
         f tasks' durations' predecessors' cycle' h' pw' s = Some r \<Longrightarrow>
         ?P tasks' durations' predecessors' cycle' h' pw' s r"
      and step: "(case alloc_step tasks' durations' predecessors' cycle' h' pw' s of
          Finished \<Rightarrow> Some (Inr s) | Raised e \<Rightarrow> Some (Inl e)
        | Placed s' \<Rightarrow> f tasks' durations' predecessors' cycle' h' pw' s'
        | Opened s' \<Rightarrow> f tasks' durations' predecessors' cycle' h' pw' s') = Some r"
      and eq: "(tasks', durations', predecessors', cycle', h', pw') = (tasks, durations, predecessors, cycle, h, pw)"
    show "alloc_loop tasks durations predecessors cycle h pw s = Some r \<and> Q s r"
    proof (cases "alloc_step tasks durations predecessors cycle h pw s")
      case Finished
      with step eq fin[OF Finished] show ?thesis
        by (subst alloc_loop.simps) auto
    next
      case (Raised e)
      with step eq err[OF Raised] show ?thesis
        by (subst alloc_loop.simps) auto
    next
      case (Placed s')
      with step eq have "f tasks durations predecessors cycle h pw s' = Some r" by simp
      from IH[OF this] have "alloc_loop tasks durations predecessors cycle h pw s' = Some r" "Q s' r"
        by simp_all
      with Placed plc[OF Placed this] show ?thesis
        by (subst alloc_loop.simps) simp
    next
      case (Opened s')
      with step eq have "f tasks durations predecessors cycle h pw s' = Some r" by simp
      from IH[OF this] have "alloc_loop tasks durations predecessors cycle h pw s' = Some r" "Q s' r"
        by simp_all
      with Opened opn[OF Opened this] show ?thesis
        by (subst alloc_loop.simps) simp
    qed
  qed
  then show ?thesis by simp
qed

lemma stuck_never_returns:
  assumes "alloc_loop tasks durations predecessors cycle h pw s = Some r"
  shows "\<not> stuck tasks durations predecessors cycle h pw s"
  using assms
proof (induction rule: alloc_loop_induct)
  case (Opened s s' r)
  then show ?case using stuck_open_station[of tasks durations predecessors cycle h pw s]
    by (auto simp: stuck_def)
qed (auto simp: stuck_def)

lemma stuck_diverges:
  "stuck tasks durations predecessors cycle h pw s \<Longrightarrow>
   alloc_loop tasks durations predecessors cycle h pw s = None"
  using stuck_never_returns by (cases "alloc_loop tasks durations predecessors cycle h pw s") auto

lemma place_fields:
  "station_map (place s st t d) =
     (station_map s)(ws s \<mapsto> (case station_map s (ws s) of None \<Rightarrow> [] | Some l \<Rightarrow> l) @ [t])"
  "time_map (place s st t d) = (time_map s)(ws s \<mapsto> st + d)"
  "assigned (place s st t d) = insert t (assigned s)"
  "ws (place s st t d) = ws s"
  "fst ` set (workstations (place s st t d)) = insert (ws s) (fst ` set (workstations s))"
  "fst ` set (st_times (place s st t d)) = insert (ws s) (fst ` set (st_times s))"
  "distinct (map fst (workstations s)) \<Longrightarrow> distinct (map fst (workstations (place s st t d)))"
  "distinct (map fst (st_times s)) \<Longrightarrow> distinct (map fst (st_times (place s st t d)))"
  "workstations (place s st t d) \<noteq> []"
  by (auto simp: place_def update_conv' dom_update distinct_update)

lemma open_station_fields:
  "station_map (open_station s) = station_map s"
  "workstations (open_station s) = workstations s"
  "time_map (open_station s) = (time_map s)(ws s + 1 \<mapsto> 0)"
  "assigned (open_station s) = assigned s"
  "ws (open_station s) = ws s + 1"
  "fst ` set (st_times (open_station s)) = insert (ws s + 1) (fst ` set (st_times s))"
  "distinct (map fst (st_times s)) \<Longrightarrow> distinct (map fst (st_times (open_station s)))"
  by (auto simp: open_station_def update_conv' dom_update distinct_update)

lemma inv_partitionD:
  assumes "inv_partition tasks s"
  shows "assigned s \<subseteq> set tasks" and "1 \<le> ws s" and "distinct (map fst (workstations s))"
    and "\<And>n l. station_map s n = Some l \<Longrightarrow>
           distinct l \<and> l \<noteq> [] \<and> 1 \<le> n \<and> n \<le> ws s \<and> set l \<subseteq> assigned s"
    and "\<And>t. t \<in> assigned s \<Longrightarrow> \<exists>n l. station_map s n = Some l \<and> t \<in> set l"
    and "\<And>n n' l l'. station_map s n = Some l \<Longrightarrow> station_map s n' = Some l' \<Longrightarrow> n \<noteq> n' \<Longrightarrow>
           set l \<inter> set l' = {}"
  using assms unfolding inv_partition_def by blast+

lemma inv_partition_place:
  assumes inv: "inv_partition tasks s" and t: "t \<in> set tasks" "t \<notin> assigned s"
  shows "inv_partition tasks (place s st t d)"
proof -
  note D = inv_partitionD[OF inv]
  let ?l0 = "case station_map s (ws s) of None \<Rightarrow> [] | Some l \<Rightarrow> l"
  let ?m = "(station_map s)(ws s \<mapsto> ?l0 @ [t])"
  have l0: "set ?l0 \<subseteq> assigned s \<and> distinct ?l0"
  proof (cases "station_map s (ws s)")
    case (Some l0)
    with D(4)[OF Some] show ?thesis by simp
  qed simp
  have other: "set l \<inter> set ?l0 = {}" if "station_map s n = Some l" "n \<noteq> ws s" for n l
  proof (cases "station_map s (ws s)")
    case (Some l0)
    with D(6)[OF that(1) Some that(2)] show ?thesis by simp
  qed simp
  have new: "distinct (?l0 @ [t])" "set (?l0 @ [t]) \<subseteq> insert t (assigned s)"
    using l0 t by auto
  show ?thesis
    unfolding inv_partition_def place_fields
  proof (intro conjI allI impI)
    show "insert t (assigned s) \<subseteq> set tasks" using D(1) t by simp
    show "1 \<le> ws s" by (rule D(2))
    show "distinct (map fst (workstations (place s st t d)))"
      using D(3) by (simp add: place_fields)
  next
    fix n l assume "?m n = Some l"
    then have "n = ws s \<and> l = ?l0 @ [t] \<or> n \<noteq> ws s \<and> station_map s n = Some l"
      by (auto split: if_splits)
    then show "distinct l" "l \<noteq> []" "1 \<le> n" "n \<le> ws s"
      using D(4)[of n l] D(2) new by auto
  next
    fix u
    show "u \<in> insert t (assigned s) \<longleftrightarrow> (\<exists>n l. ?m n = Some l \<and> u \<in> set l)"
    proof
      assume "u \<in> insert t (assigned s)"
      then consider "u = t" | "u \<in> assigned s" by auto
      then show "\<exists>n l. ?m n = Some l \<and> u \<in> set l"
      proof cases
        case 1 then show ?thesis by auto
      next
        case 2
        with D(5) obtain n l where nl: "station_map s n = Some l" "u \<in> set l"
          by blast
        then show ?thesis by (cases "n = ws s") auto
      qed
    next
      assume "\<exists>n l. ?m n = Some l \<and> u \<in> set l"
      then obtain n l where nl: "?m n = Some l" "u \<in> set l" by blast
      then have "n = ws s \<and> l = ?l0 @ [t] \<or> n \<noteq> ws s \<and> station_map s n = Some l"
        by (auto split: if_splits)
      then show "u \<in> insert t (assigned s)"
        using D(4)[of n l] new nl(2) by auto
    qed
  next
    fix n n' l l'
    assume a: "?m n = Some l" "?m n' = Some l'" "n \<noteq> n'"
    show "set l \<inter> set l' = {}"
    proof (cases "n = ws s")
      case True
      with a have l: "l = ?l0 @ [t]" and n': "station_map s n' = Some l'" "n' \<noteq> ws s"
        by simp_all
      from other[OF n'] D(4)[OF n'(1)] t(2) show ?thesis
        unfolding l by auto
    next
      case False
      note nF = this
      with a have n: "station_map s n = Some l" by simp
      show ?thesis
      proof (cases "n' = ws s")
        case True
        with a have l': "l' = ?l0 @ [t]" by simp
        from other[OF n nF] D(4)[OF n] t(2) show ?thesis
          unfolding l' by auto
      next
        case False
        with a have "station_map s n' = Some l'" by simp
        from D(6)[OF n this a(3)] show ?thesis .
      qed
    qed
  qed
qed

lemma inv_partition_open:
  assumes inv: "inv_partition tasks s"
  shows "inv_partition tasks (open_station s)"
proof -
  note D = inv_partitionD[OF inv]
  show ?thesis
    unfolding inv_partition_def open_station_fields
  proof (intro conjI allI impI)
    fix n l assume "station_map s n = Some l"
    from D(4)[OF this] show "distinct l" "l \<noteq> []" "1 \<le> n" "n \<le> ws s + 1" by simp_all
  next
    fix u show "u \<in> assigned s \<longleftrightarrow> (\<exists>n l. station_map s n = Some l \<and> u \<in> set l)"
      using D(4,5) by blast
  next
    fix n n' l l'
    assume "station_map s n = Some l" "station_map s n' = Some l'" "n \<noteq> n'"
    then show "set l \<inter> set l' = {}" by (rule D(6))
  qed (use D in simp_all)
qed

lemma station_load_append:
  "map_of durations t = Some d \<Longrightarrow>
   station_load durations (l @ [t]) = station_load durations l + d"
  by (simp add: station_load_def duration_def)

lemma inv_loadD:
  assumes "inv_load durations cycle s"
  shows "\<And>n l. station_map s n = Some l \<Longrightarrow>
           time_map s n = Some (station_load durations l) \<and>
           station_load durations l \<le> cycle \<and> set l \<subseteq> fst ` set durations"
    and "station_map s (ws s) = None \<Longrightarrow> time_map s (ws s) = Some 0"
  using assms unfolding inv_load_def by blast+

lemma inv_load_place:
  assumes inv: "inv_load durations cycle s"
    and d: "map_of durations t = Some d"
    and st: "time_map s (ws s) = Some st" and fit: "st + d \<le> cycle"
  shows "inv_load durations cycle (place s st t d)"
proof -
  note D = inv_loadD[OF inv]
  let ?l0 = "case station_map s (ws s) of None \<Rightarrow> [] | Some l \<Rightarrow> l"
  have l0: "station_load durations ?l0 = st \<and> set ?l0 \<subseteq> fst ` set durations"
  proof (cases "station_map s (ws s)")
    case None
    with D(2) st show ?thesis by (simp add: station_load_def)
  next
    case (Some l0)
    with D(1)[OF Some] st show ?thesis by simp
  qed
  have tk: "t \<in> fst ` set durations"
    using d by (metis domI dom_map_of_conv_image_fst)
  have new: "station_load durations (?l0 @ [t]) = st + d"
    using l0 station_load_append[OF d, of ?l0] by simp
  show ?thesis
    unfolding inv_load_def place_fields
  proof (rule conjI; (intro allI impI)?)
    fix n l
    assume a: "((station_map s)(ws s \<mapsto> ?l0 @ [t])) n = Some l"
    show "((time_map s)(ws s \<mapsto> st + d)) n = Some (station_load durations l)
          \<and> station_load durations l \<le> cycle \<and> set l \<subseteq> fst ` set durations"
    proof (cases "n = ws s")
      case True
      with a have "l = ?l0 @ [t]" by simp
      with True new fit l0 tk show ?thesis by simp
    next
      case False
      with a have "station_map s n = Some l" by simp
      from D(1)[OF this] False show ?thesis by simp
    qed
  next
    assume "((station_map s)(ws s \<mapsto> ?l0 @ [t])) (ws s) = None"
    then show "((time_map s)(ws s \<mapsto> st + d)) (ws s) = Some 0" by simp
  qed
qed

lemma inv_load_open:
  assumes inv: "inv_load durations cycle s" and part: "inv_partition tasks s"
  shows "inv_load durations cycle (open_station s)"
proof -
  note D = inv_loadD[OF inv]
  show ?thesis
    unfolding inv_load_def open_station_fields
  proof (rule conjI; (intro allI impI)?)
    fix n l
    assume a: "station_map s n = Some l"
    from inv_partitionD(4)[OF part a] have "n \<noteq> ws s + 1" by simp
    with D(1)[OF a]
    show "((time_map s)(ws s + 1 \<mapsto> 0)) n = Some (station_load durations l)
          \<and> station_load durations l \<le> cycle \<and> set l \<subseteq> fst ` set durations"
      by simp
  next
    show "((time_map s)(ws s + 1 \<mapsto> 0)) (ws s + 1) = Some 0" by simp
  qed
qed

lemma inv_stationsD:
  assumes "inv_stations tasks s"
  shows "distinct (map fst (st_times s))" and "fst ` set (st_times s) = {1..ws s}"
    and "\<And>n. 1 \<le> n \<Longrightarrow> n < ws s \<Longrightarrow> station_map s n \<noteq> None"
    and "station_map s (ws s) = None \<Longrightarrow> card (assigned s) < length tasks \<or> workstations s = []"
  using assms unfolding inv_stations_def by blast+

lemma inv_stations_place:
  assumes inv: "inv_stations tasks s" and st: "time_map s (ws s) = Some st"
  shows "inv_stations tasks (place s st t d)"
proof -
  note D = inv_stationsD[OF inv]
  have "ws s \<in> fst ` set (st_times s)"
    using st by (metis domI dom_map_of_conv_image_fst)
  then have keys: "insert (ws s) (fst ` set (st_times s)) = {1..ws s}"
    using D(2) by auto
  show ?thesis
    unfolding inv_stations_def place_fields keys
  proof (intro conjI allI impI)
    show "distinct (map fst (st_times (place s st t d)))"
      using D(1) by (simp add: place_fields)
  next
    fix n assume "1 \<le> n" "n < ws s"
    from D(3)[OF this] this(2)
    show "((station_map s)(ws s \<mapsto> (case station_map s (ws s) of None \<Rightarrow> [] | Some l \<Rightarrow> l) @ [t])) n \<noteq> None"
      by simp
  next
    assume "((station_map s)(ws s \<mapsto> (case station_map s (ws s) of None \<Rightarrow> [] | Some l \<Rightarrow> l) @ [t])) (ws s) = None"
    then show "card (insert t (assigned s)) < length tasks \<or> workstations (place s st t d) = []"
      by simp
  qed simp
qed

lemma inv_stations_open:
  assumes inv: "inv_stations tasks s" and load: "inv_load durations cycle s"
    and st: "time_map s (ws s) = Some st" "st \<noteq> 0"
    and c: "card (assigned s) < length tasks"
  shows "inv_stations tasks (open_station s)"
proof -
  note D = inv_stationsD[OF inv]
  have cur: "station_map s (ws s) \<noteq> None"
    using inv_loadD(2)[OF load] st by auto
  have keys: "insert (ws s + 1) (fst ` set (st_times s)) = {1..ws s + 1}"
    using D(2) by auto
  show ?thesis
    unfolding inv_stations_def open_station_fields keys
  proof (intro conjI allI impI)
    show "distinct (map fst (st_times (open_station s)))"
      using D(1) by (simp add: open_station_fields)
  next
    fix n assume "1 \<le> n" "n < ws s + 1"
    then have "n < ws s \<or> n = ws s" by auto
    with D(3)[of n] \<open>1 \<le> n\<close> cur show "station_map s n \<noteq> None" by auto
  next
    show "card (assigned s) < length tasks \<or> workstations s = []" using c by simp
  qed simp
qed

lemma inv_precD:
  assumes "inv_prec predecessors s" and "station_map s n = Some l" and "i < length l"
    and "p \<in> set (get_preds predecessors (l ! i))"
  shows "(\<exists>j<i. l ! j = p) \<or> (\<exists>n' l'. n' < n \<and> station_map s n' = Some l' \<and> p \<in> set l')"
  using assms unfolding inv_prec_def by blast

lemma inv_prec_place:
  assumes inv: "inv_prec predecessors s" and part: "inv_partition tasks s"
    and el: "eligible predecessors (assigned s) t"
  shows "inv_prec predecessors (place s st t d)"
proof -
  note D = inv_partitionD[OF part]
  let ?l0 = "case station_map s (ws s) of None \<Rightarrow> [] | Some l \<Rightarrow> l"
  let ?m = "(station_map s)(ws s \<mapsto> ?l0 @ [t])"
  have cur: "station_map s (ws s) = Some l' \<Longrightarrow> ?l0 = l'" for l' by simp
  have keep: "\<exists>n'' l''. n'' < n \<and> ?m n'' = Some l'' \<and> p \<in> set l''"
    if "n' < n" "station_map s n' = Some l'" "p \<in> set l'" for n n' l' p
  proof (cases "n' = ws s")
    case True
    with that cur[of l'] have "?m n' = Some (l' @ [t])" by simp
    with that show ?thesis by fastforce
  next
    case False
    with that have "?m n' = Some l'" by simp
    with that show ?thesis by blast
  qed
  show ?thesis
    unfolding inv_prec_def place_fields
  proof (intro allI impI ballI)
    fix n l i p
    assume a: "?m n = Some l" "i < length l" "p \<in> set (get_preds predecessors (l ! i))"
    show "(\<exists>j<i. l ! j = p) \<or> (\<exists>n' l'. n' < n \<and> ?m n' = Some l' \<and> p \<in> set l')"
    proof (cases "n = ws s")
      case False
      with a have n: "station_map s n = Some l" by simp
      from inv_precD[OF inv n a(2,3)] keep show ?thesis by blast
    next
      case True
      with a have l: "l = ?l0 @ [t]" by simp
      show ?thesis
      proof (cases "i < length ?l0")
        case True
        then obtain l0 where l0: "station_map s (ws s) = Some l0"
          by (cases "station_map s (ws s)") auto
        with True have i: "i < length l0" and li: "l ! i = l0 ! i"
          using l by (simp_all add: nth_append)
        from a(3) li have "p \<in> set (get_preds predecessors (l0 ! i))" by simp
        from inv_precD[OF inv l0 i this]
        show ?thesis
        proof
          assume "\<exists>j<i. l0 ! j = p"
          then obtain j where "j < i" "l0 ! j = p" by blast
          with i l l0 have "j < i \<and> l ! j = p" by (simp add: nth_append)
          then show ?thesis by blast
        next
          assume "\<exists>n' l'. n' < ws s \<and> station_map s n' = Some l' \<and> p \<in> set l'"
          with keep \<open>n = ws s\<close> show ?thesis by blast
        qed
      next
        case False
        with a(2) l have i: "i = length ?l0" by simp
        with l have "l ! i = t" by simp
        with a(3) el have "p \<in> assigned s" by (auto simp: eligible_def)
        from D(5)[OF this] obtain n' l' where n': "station_map s n' = Some l'" "p \<in> set l'"
          by blast
        from D(4)[OF n'(1)] have le: "n' \<le> ws s" by simp
        show ?thesis
        proof (cases "n' = ws s")
          case True
          with n' cur[of l'] have "p \<in> set ?l0" by simp
          then obtain j where "j < length ?l0" "?l0 ! j = p"
            unfolding in_set_conv_nth by blast
          with i l have "j < i \<and> l ! j = p" by (simp add: nth_append)
          then show ?thesis by blast
        next
          case False
          with le have "n' < n" using \<open>n = ws s\<close> by simp
          from keep[OF this n'] show ?thesis by blast
        qed
      qed
    qed
  qed
qed

lemma inv_prec_open: "inv_prec predecessors s \<Longrightarrow> inv_prec predecessors (open_station s)"
  unfolding inv_prec_def open_station_fields .

lemma alloc_inv_init: "alloc_inv tasks durations predecessors cycle init_state"
  by (simp add: alloc_inv_def inv_partition_def inv_load_def inv_prec_def inv_stations_def
      init_state_def)

lemma alloc_inv_placed:
  assumes inv: "alloc_inv tasks durations predecessors cycle s"
    and step: "alloc_step tasks durations predecessors cycle h pw s = Placed s'"
  shows "alloc_inv tasks durations predecessors cycle s'"
proof -
  from step obtain t d st where s': "s' = place s st t d" and t: "t \<in> set tasks"
    and el: "eligible predecessors (assigned s) t" and d: "map_of durations t = Some d"
    and st: "time_map s (ws s) = Some st" and fit: "st + d \<le> cycle"
    by (rule alloc_step_Placed)
  from el have na: "t \<notin> assigned s" by (simp add: eligible_def)
  from inv have i: "inv_partition tasks s" "inv_load durations cycle s"
    "inv_prec predecessors s" "inv_stations tasks s"
    by (simp_all add: alloc_inv_def)
  show ?thesis
    unfolding alloc_inv_def s'
    using inv_partition_place[OF i(1) t na] inv_load_place[OF i(2) d st fit]
      inv_prec_place[OF i(3) i(1) el] inv_stations_place[OF i(4) st]
    by simp
qed

lemma alloc_inv_opened:
  assumes inv: "alloc_inv tasks durations predecessors cycle s"
    and step: "alloc_step tasks durations predecessors cycle h pw s = Opened s'"
    and ns: "\<not> stuck tasks durations predecessors cycle h pw s"
  shows "alloc_inv tasks durations predecessors cycle s'"
proof -
  from step obtain st where s': "s' = open_station s"
    and st: "time_map s (ws s) = Some st" and c: "card (assigned s) < length tasks"
    by (rule alloc_step_Opened)
  from ns step s' st have st0: "st \<noteq> 0" by (auto simp: stuck_def)
  from inv have i: "inv_partition tasks s" "inv_load durations cycle s"
    "inv_prec predecessors s" "inv_stations tasks s"
    by (simp_all add: alloc_inv_def)
  show ?thesis
    unfolding alloc_inv_def s'
    using inv_partition_open[OF i(1)] inv_load_open[OF i(2) i(1)] inv_prec_open[OF i(3)]
      inv_stations_open[OF i(4) i(2) st st0 c]
    by simp
qed

lemma alloc_step_Finished:
  "alloc_step tasks durations predecessors cycle h pw s = Finished \<longleftrightarrow>
   \<not> card (assigned s) < length tasks"
  by (auto simp: alloc_step_def Let_def split: sum.splits option.splits)

lemma alloc_loop_inv:
  assumes "alloc_loop tasks durations predecessors cycle h pw s = Some r"
    and "alloc_inv tasks durations predecessors cycle s" and "r = Inr sf"
  shows "alloc_inv tasks durations predecessors cycle sf \<and>
         \<not> card (assigned sf) < length tasks"
  using assms
proof (induction rule: alloc_loop_induct)
  case (Finished s)
  then show ?case by (simp add: alloc_step_Finished)
next
  case (Raised s e)
  then show ?case by simp
next
  case (Placed s s' r)
  then show ?case using alloc_inv_placed by blast
next
  case (Opened s s' r)
  from Opened(1,2) have "alloc_loop tasks durations predecessors cycle h pw s = Some r"
    by (subst alloc_loop.simps) simp
  then have "\<not> stuck tasks durations predecessors cycle h pw s"
    by (rule stuck_never_returns)
  from alloc_inv_opened[OF Opened(4,1) this] Opened(3,5) show ?case by blast
qed

lemma finished_all_assigned:
  assumes part: "inv_partition tasks s" and fin: "\<not> card (assigned s) < length tasks"
  shows "assigned s = set tasks \<and> distinct tasks"
proof -
  from inv_partitionD(1)[OF part] have sub: "assigned s \<subseteq> set tasks" .
  then have "card (assigned s) \<le> card (set tasks)" by (simp add: card_mono)
  moreover have "card (set tasks) \<le> length tasks" by (rule card_length)
  ultimately have eq: "card (assigned s) = card (set tasks)" "card (set tasks) = length tasks"
    using fin by simp_all
  from eq(2) have "distinct tasks" by (rule card_distinct)
  moreover from sub eq(1) have "assigned s = set tasks"
    by (simp add: card_subset_eq)
  ultimately show ?thesis by simp
qed

lemma returns_lb:
  "returns tasks durations predecessors cycle h W m \<longleftrightarrow>
   line_balancing_algorithm_lb tasks durations predecessors cycle h = Some (Inr (W, m))"
  by (auto simp: returns_def line_balancing_algorithm_def line_balancing_algorithm_lb_def Let_def
      split: sum.splits)

lemma returns_final_state:
  assumes "returns tasks durations predecessors cycle h W m"
  obtains pw sf where "alloc_loop tasks durations predecessors cycle h pw init_state = Some (Inr sf)"
    and "W = workstations sf" and "station_times m = st_times sf" and "W \<noteq> []"
    and "cycle \<noteq> 0"
    and "min_stations m = max 1 \<lfloor>(sum_list (map snd durations) + cycle - 1 / 100) / cycle\<rfloor>"
    and "total_work_content m = sum_list (map snd durations)"
    and "actual_stations m = length W"
proof -
  from assms have lb: "line_balancing_algorithm_lb tasks durations predecessors cycle h = Some (Inr (W, m))"
    by (simp add: returns_lb)
  then have c: "cycle \<noteq> 0"
    by (auto simp: line_balancing_algorithm_lb_def compute_min_stations_def Let_def split: if_splits)
  let ?T = "sum_list (map snd durations)"
  let ?k = "max 1 \<lfloor>(?T + cycle - 1 / 100) / cycle\<rfloor>"
  from lb c have am: "allocate_and_measure tasks durations predecessors cycle h ?T ?k = Some (Inr (W, m))"
    by (simp add: line_balancing_algorithm_lb_def compute_min_stations_def Let_def)
  then obtain pw sf where loop: "alloc_loop tasks durations predecessors cycle h pw init_state = Some (Inr sf)"
    and dm: "derive_metrics ?T cycle ?k sf = Inr m" and W: "W = workstations sf"
    by (auto simp: allocate_and_measure_def split: sum.splits option.splits)
  from dm have "station_times m = st_times sf" "workstations sf \<noteq> []"
    "min_stations m = ?k" "total_work_content m = ?T" "actual_stations m = length (workstations sf)"
    by (auto simp: derive_metrics_def Let_def split: if_splits)
  with that[OF loop W] c W show thesis by simp
qed

lemma returns_invariant:
  assumes "returns tasks durations predecessors cycle h W m"
  obtains sf where "alloc_inv tasks durations predecessors cycle sf"
    and "assigned sf = set tasks" and "distinct tasks"
    and "W = workstations sf" and "station_times m = st_times sf" and "W \<noteq> []"
proof -
  from assms obtain pw sf where loop: "alloc_loop tasks durations predecessors cycle h pw init_state = Some (Inr sf)"
    and W: "W = workstations sf" "station_times m = st_times sf" "W \<noteq> []"
    by (rule returns_final_state)
  from alloc_loop_inv[OF loop alloc_inv_init refl]
  have inv: "alloc_inv tasks durations predecessors cycle sf"
    and fin: "\<not> card (assigned sf) < length tasks" by simp_all
  from inv have "inv_partition tasks sf" by (simp add: alloc_inv_def)
  from finished_all_assigned[OF this fin] that[OF inv _ _ W] show thesis by simp
qed

lemma returns_stations:
  assumes "returns tasks durations predecessors cycle h W m"
  obtains sf where "alloc_inv tasks durations predecessors cycle sf"
    and "assigned sf = set tasks" and "distinct tasks"
    and "W = workstations sf" and "station_times m = st_times sf" and "W \<noteq> []"
    and "distinct (map fst W)"
    and "\<forall>n l. (n, l) \<in> set W \<longleftrightarrow> station_map sf n = Some l"
proof -
  from assms obtain sf where sf: "alloc_inv tasks durations predecessors cycle sf"
    "assigned sf = set tasks" "distinct tasks"
    "W = workstations sf" "station_times m = st_times sf" "W \<noteq> []"
    by (rule returns_invariant)
  from sf(1) have "inv_partition tasks sf" by (simp add: alloc_inv_def)
  from inv_partitionD(3)[OF this] sf(4) have d: "distinct (map fst W)" by simp
  then have "\<forall>n l. (n, l) \<in> set W \<longleftrightarrow> station_map sf n = Some l"
    unfolding sf(4) by simp
  with that[OF sf d] show thesis by blast
qed

text \<open>The end-to-end scenario of the specification, used as the concrete run below.\<close>

lemma run_AB:
  "returns [''A'', ''B''] [(''A'', 8), (''B'', 5)] [(''A'', []), (''B'', [''A''])] 10
     LongestTaskTime [(1, [''A'']), (2, [''B''])]
     \<lparr>total_work_content = 13, cycle_time = 10, min_stations = 2,
        actual_stations = 2, idle_time = 7, efficiency = 65, balance_delay = 35,
        station_times = [(1, 8), (2, 5)]\<rparr>"
  unfolding returns_def
  by (simp add: engine_defs alloc_loop.simps floor_unique)

lemma total_work_over_tasks:
  assumes dk: "distinct (map fst durations)" and dt: "distinct tasks"
    and keys: "fst ` set durations = set tasks"
  shows "sum_list (map snd durations) = sum_list (map (duration durations) tasks)"
proof -
  have "map snd durations = map (duration durations) (map fst durations)"
    using dk by (auto simp: duration_def)
  then have "sum_list (map snd durations) = sum_list (map (duration durations) (map fst durations))"
    by (rule arg_cong)
  also have "\<dots> = sum (duration durations) (set (map fst durations))"
    using dk by (rule sum_list_distinct_conv_sum_set)
  also have "\<dots> = sum (duration durations) (set tasks)" using keys by simp
  also have "\<dots> = sum_list (map (duration durations) tasks)"
    using dt by (simp add: sum_list_distinct_conv_sum_set)
  finally show ?thesis .
qed

text \<open>
  The minimum-stations formula in exact arithmetic is the ceiling wherever the epsilon is
  harmless.
\<close>

lemma min_stations_is_ceiling:
  fixes T C :: rat
  assumes T: "0 < T" and C: "0 < C" and h: "epsilon_harmless T C"
  shows "max 1 \<lfloor>(T + C - 1 / 100) / C\<rfloor> = \<lceil>T / C\<rceil>"
proof -
  define q where "q = \<lfloor>T / C\<rfloor>"
  define r where "r = T - of_int q * C"
  have "of_int q \<le> T / C" "T / C < of_int q + 1"
    unfolding q_def using floor_correct[of "T / C"] by simp_all
  with C have qC: "of_int q * C \<le> T" "T < (of_int q + 1) * C"
    by (simp_all add: pos_le_divide_eq pos_divide_less_eq)
  then have r: "0 \<le> r" "r < C" "T = of_int q * C + r"
    unfolding r_def by (simp_all add: algebra_simps)
  have "0 \<le> T / C" using T C by simp
  then have q0: "0 \<le> q" unfolding q_def by simp
  have rem: "work_remainder T C = r"
    by (simp add: work_remainder_def r_def q_def)
  from h rem consider (small) "T \<le> C" | (big) "1 / 100 \<le> r" | (zero) "r = 0" "1 / 100 \<le> C"
    unfolding epsilon_harmless_def by auto
  then show ?thesis
  proof cases
    case small
    have "0 < T / C" "T / C \<le> 1" using T C small by simp_all
    then have c1: "\<lceil>T / C\<rceil> = 1" by (intro ceiling_unique) simp_all
    have "(T + C - 1 / 100) / C < 2"
      using C small by (simp add: pos_divide_less_eq)
    then have "\<lfloor>(T + C - 1 / 100) / C\<rfloor> < 2" by (simp add: floor_less_iff)
    with c1 show ?thesis by simp
  next
    case big
    have f: "\<lfloor>(T + C - 1 / 100) / C\<rfloor> = q + 1"
    proof (rule floor_unique)
      show "of_int (q + 1) \<le> (T + C - 1 / 100) / C"
        using C big r(3) by (simp add: pos_le_divide_eq algebra_simps)
      show "(T + C - 1 / 100) / C < of_int (q + 1) + 1"
        using C r(2,3) by (simp add: pos_divide_less_eq algebra_simps)
    qed
    have c: "\<lceil>T / C\<rceil> = q + 1"
    proof (rule ceiling_unique)
      show "of_int (q + 1) - 1 < T / C"
        using C big r(3) by (simp add: pos_less_divide_eq algebra_simps)
      show "T / C \<le> of_int (q + 1)"
        using C qC(2) by (simp add: pos_divide_le_eq algebra_simps)
    qed
    from f c q0 show ?thesis by simp
  next
    case zero
    with r(3) have Tq: "T = of_int q * C" by simp
    with T C have "0 < (of_int q :: rat)" by (simp add: zero_less_mult_iff)
    then have q1: "1 \<le> q" by simp
    have f: "\<lfloor>(T + C - 1 / 100) / C\<rfloor> = q"
    proof (rule floor_unique)
      show "of_int q \<le> (T + C - 1 / 100) / C"
        using C zero(2) Tq by (simp add: pos_le_divide_eq algebra_simps)
      show "(T + C - 1 / 100) / C < of_int q + 1"
        using C Tq by (simp add: pos_divide_less_eq algebra_simps)
    qed
    have c: "\<lceil>T / C\<rceil> = q" using C Tq by simp
    from f c q1 show ?thesis by simp
  qed
qed

lemma sum_list_positive:
  fixes ds :: "rat list"
  assumes "\<forall>d \<in> set ds. 0 < d" and "ds \<noteq> []"
  shows "0 < sum_list ds"
  using assms by (induction ds) (auto simp: add_pos_nonneg sum_list_nonneg less_imp_le)

text \<open>A run with fractional durations: 2.5 and 3.5 at cycle time 4.\<close>

lemma run_halves:
  "returns [''A'', ''B''] [(''A'', 5 / 2), (''B'', 7 / 2)] [] 4 LongestTaskTime
     [(1, [''B'']), (2, [''A''])]
     \<lparr>total_work_content = 6, cycle_time = 4, min_stations = 2,
        actual_stations = 2, idle_time = 2, efficiency = 75, balance_delay = 25,
        station_times = [(1, 7 / 2), (2, 5 / 2)]\<rparr>"
  unfolding returns_def
  by (simp add: engine_defs alloc_loop.simps floor_unique)

lemma halves_input:
  "positive_input [''A'', ''B''] [(''A'', 5 / 2), (''B'', 7 / 2)] 4"
  "exact_in_doubles [(''A'', 5 / 2), (''B'', 7 / 2)] 4"
  "epsilon_harmless (sum_list (map (duration [(''A'', 5 / 2), (''B'', 7 / 2)]) [''A'', ''B''])) 4"
proof -
  show "positive_input [''A'', ''B''] [(''A'', 5 / 2), (''B'', 7 / 2)] 4"
    by (auto simp: positive_input_def)
  show "exact_in_doubles [(''A'', 5 / 2), (''B'', 7 / 2)] 4"
    unfolding exact_in_doubles_def by (intro conjI exI[of _ 1]) simp_all
  have "\<lfloor>(6 :: rat) / 4\<rfloor> = 1" by (simp add: floor_unique)
  then have "work_remainder 6 4 = 2" by (simp add: work_remainder_def)
  then show "epsilon_harmless (sum_list (map (duration [(''A'', 5 / 2), (''B'', 7 / 2)]) [''A'', ''B''])) 4"
    by (simp add: epsilon_harmless_def duration_def)
qed







text \<open>
  When no task is longer than the cycle time the loop ends: a pass either assigns a task
  or leaves a non-empty station for an empty one, in which the next pass assigns a task.
\<close>

lemma alloc_loop_terminates:
  assumes fits: "every_task_fits tasks durations cycle"
  shows "finite (assigned s) \<Longrightarrow>
         \<exists>r. alloc_loop tasks durations predecessors cycle h pw s = Some r"
proof (induction s rule: measure_induct_rule[of "progress_measure tasks"])
  case (less s)
  show ?case
  proof (cases "alloc_step tasks durations predecessors cycle h pw s")
    case Finished
    then show ?thesis by (subst alloc_loop.simps) simp
  next
    case (Raised e)
    then show ?thesis by (subst alloc_loop.simps) simp
  next
    case (Placed s')
    then obtain t d st where s': "s' = place s st t d"
      and el: "eligible predecessors (assigned s) t"
      and c: "card (assigned s) < length tasks"
      by (rule alloc_step_Placed)
    from el have "t \<notin> assigned s" by (simp add: eligible_def)
    with less.prems have "card (assigned s') = Suc (card (assigned s))" "finite (assigned s')"
      by (simp_all add: s' place_fields)
    with c have "progress_measure tasks s' < progress_measure tasks s"
      unfolding progress_measure_def by (auto split: if_splits)
    from less.IH[OF this \<open>finite (assigned s')\<close>] Placed show ?thesis
      by (subst alloc_loop.simps) simp
  next
    case (Opened s')
    from Opened show ?thesis
    proof (rule alloc_step_Opened)
      fix st t
      assume s': "s' = open_station s" and st: "time_map s (ws s) = Some st"
        and t: "t \<in> set tasks" "eligible predecessors (assigned s) t"
        and nofit: "\<And>u. u \<in> set tasks \<Longrightarrow> eligible predecessors (assigned s) u \<Longrightarrow>
           \<exists>d. map_of durations u = Some d \<and> \<not> st + d \<le> cycle"
      from nofit[OF t] obtain d where d: "map_of durations t = Some d" "\<not> st + d \<le> cycle"
        by blast
      from fits t(1) d(1) have "d \<le> cycle" by (simp add: every_task_fits_def)
      with d(2) have "st \<noteq> 0" by auto
      with st have "progress_measure tasks s' < progress_measure tasks s"
        by (simp add: progress_measure_def s' open_station_fields)
      moreover from less.prems have "finite (assigned s')" by (simp add: s' open_station_fields)
      ultimately show ?thesis using less.IH Opened
        by (subst alloc_loop.simps) simp
    qed
  qed
qed

lemma engine_terminates_when_every_task_fits:
  assumes "every_task_fits tasks durations cycle"
  shows "(\<exists>r. line_balancing_algorithm tasks durations predecessors cycle h = Some r)
         \<and> (\<exists>r. line_balancing_algorithm_lb tasks durations predecessors cycle h = Some r)"
proof -
  have "finite (assigned init_state)" by (simp add: init_state_def)
  from alloc_loop_terminates[OF assms this]
  have "\<exists>r. alloc_loop tasks durations predecessors cycle h pw init_state = Some r" for pw
    by blast
  then have "\<exists>r. allocate_and_measure tasks durations predecessors cycle h T k = Some r" for T k
    unfolding allocate_and_measure_def
    by (auto split: sum.splits option.splits heuristic.splits) (metis option.distinct(1))+
  then show ?thesis
    unfolding line_balancing_algorithm_def line_balancing_algorithm_lb_def Let_def
    by (auto split: sum.splits)
qed

section \<open>The claims\<close>

text \<open>
  C1. The claim: on every input with unique identifiers, positive durations, a positive
  cycle time and an acyclic, closed predecessor map the call terminates. A single task of
  duration 11 with cycle time 10 is such an input; the task never fits, the loop body
  opens station after station and the call never returns (the value \<open>None\<close> of the
  loop), in both scripts. (When no task is longer than the cycle time the call does
  terminate: \<open>engine_terminates_when_every_task_fits\<close>.)
\<close>

theorem oversized_task_never_returns:
  "alloc_step [''A''] [(''A'', 11)] [] 10 LongestTaskTime [] init_state
     = Opened (open_station init_state)
   \<and> line_balancing_algorithm [''A''] [(''A'', 11)] [] 10 LongestTaskTime = None
   \<and> line_balancing_algorithm_lb [''A''] [(''A'', 11)] [] 10 LongestTaskTime = None"
proof -
  have st: "alloc_step [''A''] [(''A'', 11)] [] 10 LongestTaskTime [] init_state = Opened (open_station init_state)"
    by (simp add: engine_defs)
  then have "stuck [''A''] [(''A'', 11)] [] 10 LongestTaskTime [] init_state"
    by (simp add: stuck_def) (simp add: init_state_def)
  from stuck_diverges[OF this] st show ?thesis
    by (simp add: line_balancing_algorithm_def line_balancing_algorithm_lb_def compute_min_stations_def
        build_followers_def get_preds_def allocate_and_measure_def)
qed

text \<open>
  C9. End-to-end scenario: tasks \<open>A\<close> (8, no predecessor) and \<open>B\<close> (5, after \<open>A\<close>), cycle
  time 10, longest-task-time heuristic. Station 1 holds \<open>A\<close>, station 2 holds \<open>B\<close>, the
  minimum number of stations is 2, two stations are used, the idle time is 7 and the
  efficiency 65.
\<close>

theorem end_to_end_scenario:
  "line_balancing_algorithm [''A'', ''B''] [(''A'', 8), (''B'', 5)]
     [(''A'', []), (''B'', [''A''])] 10 LongestTaskTime =
   Some (Inr ([(1, [''A'']), (2, [''B''])],
              \<lparr>total_work_content = 13, cycle_time = 10, min_stations = 2,
                 actual_stations = 2, idle_time = 7, efficiency = 65, balance_delay = 35,
                 station_times = [(1, 8), (2, 5)]\<rparr>))"
  by (simp add: engine_defs alloc_loop.simps floor_unique)

text \<open>
  C8. The claim: once the loop has completed, deriving the metrics never fails, also for
  an empty task list. On the empty list the loop completes at once with no station in
  \<open>workstations\<close>, and the efficiency divides by \<open>len(workstations) * cycle_time = 0\<close>:
  both scripts raise \<^verbatim>\<open>ZeroDivisionError\<close>.
\<close>

theorem metrics_fail_on_empty_task_list:
  "alloc_loop [] [] [] 10 LongestTaskTime [] init_state = Some (Inr init_state)
   \<and> derive_metrics 0 10 1 init_state = Inl ZeroDivisionError
   \<and> line_balancing_algorithm [] [] [] 10 LongestTaskTime = Some (Inl ZeroDivisionError)
   \<and> line_balancing_algorithm_lb [] [] [] 10 LongestTaskTime = Some (Inl ZeroDivisionError)"
  by (simp add: engine_defs alloc_loop.simps floor_unique)

text \<open>
  C6. The claim: the positional weight of a task is its own duration plus the duration of
  every transitive successor, each counted once. On the diamond \<open>A \<rightarrow> B \<rightarrow> D\<close>, \<open>A \<rightarrow> C \<rightarrow> D\<close>
  with unit durations the code adds the weights of the direct successors, so \<open>D\<close> reaches
  \<open>A\<close> along both paths: the weight of \<open>A\<close> is 5, more than the total work content 4 of
  the four tasks.
\<close>

theorem positional_weight_diamond:
  "compute_positional_weights [''A'', ''B'', ''C'', ''D'']
     [(''A'', 1), (''B'', 1), (''C'', 1), (''D'', 1)]
     [(''A'', []), (''B'', [''A'']), (''C'', [''A'']), (''D'', [''B'', ''C''])] =
   Inr [(''A'', 5), (''B'', 2), (''C'', 2), (''D'', 1)]
   \<and> sum_list (map snd [(''A'', 1 :: rat), (''B'', 1), (''C'', 1), (''D'', 1)]) = 4"
  by (simp add: graph_defs)

text \<open>
  C2. Coverage and partition: whenever either script returns, every task of the task list
  is in the task sequence of exactly one station, the union of the stations' sequences is
  the task set, no station lists a task twice and no station number occurs twice. The
  theorem needs no validity assumption: on an input that is not valid the loop raises,
  diverges or still returns a partition.
\<close>

theorem stations_partition_tasks:
  assumes "returns tasks durations predecessors cycle h W m"
  shows "(\<forall>t \<in> set tasks. \<exists>!n. \<exists>l. (n, l) \<in> set W \<and> t \<in> set l)
         \<and> (\<Union>(n, l) \<in> set W. set l) = set tasks
         \<and> (\<forall>(n, l) \<in> set W. distinct l)
         \<and> distinct (map fst W)"
proof -
  from assms obtain sf where inv: "alloc_inv tasks durations predecessors cycle sf"
    and a: "assigned sf = set tasks" and d: "distinct (map fst W)"
    and W0: "\<forall>n l. (n, l) \<in> set W \<longleftrightarrow> station_map sf n = Some l"
    by (rule returns_stations)
  from W0 have W: "(n, l) \<in> set W \<longleftrightarrow> station_map sf n = Some l" for n l by blast
  from inv have part: "inv_partition tasks sf" by (simp add: alloc_inv_def)
  note D = inv_partitionD[OF part]
  have ex1: "\<exists>!n. \<exists>l. (n, l) \<in> set W \<and> t \<in> set l" if "t \<in> set tasks" for t
  proof -
    from that a D(5)[of t] obtain n l where nl: "station_map sf n = Some l" "t \<in> set l"
      by auto
    show ?thesis
    proof (rule ex1I[of _ n])
      from nl W show "\<exists>l. (n, l) \<in> set W \<and> t \<in> set l" by blast
    next
      fix n' assume "\<exists>l. (n', l) \<in> set W \<and> t \<in> set l"
      then obtain l' where n'l': "station_map sf n' = Some l'" "t \<in> set l'"
        using W by blast
      show "n' = n"
      proof (rule ccontr)
        assume "n' \<noteq> n"
        from D(6)[OF n'l'(1) nl(1) this] n'l'(2) nl(2) show False by blast
      qed
    qed
  qed
  have un: "(\<Union>(n, l) \<in> set W. set l) = set tasks"
  proof (rule set_eqI)
    fix t
    have "t \<in> (\<Union>(n, l) \<in> set W. set l) \<longleftrightarrow> (\<exists>n l. station_map sf n = Some l \<and> t \<in> set l)"
      using W by auto
    also have "\<dots> \<longleftrightarrow> t \<in> assigned sf" using D(4,5) by blast
    finally show "t \<in> (\<Union>(n, l) \<in> set W. set l) \<longleftrightarrow> t \<in> set tasks" using a by simp
  qed
  have dl: "\<forall>(n, l) \<in> set W. distinct l"
    using W D(4) by blast
  from ex1 un dl d show ?thesis by blast
qed

theorem stations_partition_tasks_witness:
  "returns [''A'', ''B''] [(''A'', 8), (''B'', 5)] [(''A'', []), (''B'', [''A''])] 10
     LongestTaskTime [(1, [''A'']), (2, [''B''])]
     \<lparr>total_work_content = 13, cycle_time = 10, min_stations = 2,
        actual_stations = 2, idle_time = 7, efficiency = 65, balance_delay = 35,
        station_times = [(1, 8), (2, 5)]\<rparr>
   \<and> (\<exists>!n. \<exists>l. (n, l) \<in> set [(1 :: nat, [''A'']), (2, [''B''])] \<and> ''B'' \<in> set l)
   \<and> (\<Union>(n, l) \<in> set [(1 :: nat, [''A'']), (2, [''B''])]. set l) = set [''A'', ''B'']"
  using stations_partition_tasks[OF run_AB] run_AB by simp

text \<open>
  C3. Capacity: whenever either script returns, every task of every station has a duration
  and the sum of the durations of the station's tasks is at most the cycle time.
\<close>

theorem station_load_within_cycle_time:
  assumes "returns tasks durations predecessors cycle h W m"
  shows "\<forall>(n, l) \<in> set W.
           set l \<subseteq> fst ` set durations \<and> station_load durations l \<le> cycle"
proof -
  from assms obtain sf where inv: "alloc_inv tasks durations predecessors cycle sf"
    and W0: "\<forall>n l. (n, l) \<in> set W \<longleftrightarrow> station_map sf n = Some l"
    by (rule returns_stations)
  from inv have load: "inv_load durations cycle sf" by (simp add: alloc_inv_def)
  from inv_loadD(1)[OF load] W0 show ?thesis by blast
qed

theorem station_load_within_cycle_time_witness:
  "returns [''A'', ''B''] [(''A'', 8), (''B'', 5)] [(''A'', []), (''B'', [''A''])] 10
     LongestTaskTime [(1, [''A'']), (2, [''B''])]
     \<lparr>total_work_content = 13, cycle_time = 10, min_stations = 2,
        actual_stations = 2, idle_time = 7, efficiency = 65, balance_delay = 35,
        station_times = [(1, 8), (2, 5)]\<rparr>
   \<and> station_load [(''A'', 8), (''B'', 5)] [''A''] \<le> 10
   \<and> station_load [(''A'', 8), (''B'', 5)] [''B''] \<le> 10"
  using station_load_within_cycle_time[OF run_AB] run_AB by simp

text \<open>
  C10. Whenever either script returns, the station numbers recorded in \<^verbatim>\<open>station_times\<close>
  are exactly the station numbers of the assignment, no station of the assignment is empty,
  and the time recorded for a station is the sum of the durations of its tasks.
\<close>

theorem station_times_match_assignment:
  assumes "returns tasks durations predecessors cycle h W m"
  shows "fst ` set (station_times m) = fst ` set W
         \<and> (\<forall>(n, l) \<in> set W. l \<noteq> [] \<and>
               map_of (station_times m) n = Some (station_load durations l))"
proof -
  from assms obtain sf where inv: "alloc_inv tasks durations predecessors cycle sf"
    and a: "assigned sf = set tasks"
    and Ws: "W = workstations sf" and m: "station_times m = st_times sf" and ne: "W \<noteq> []"
    and W0: "\<forall>n l. (n, l) \<in> set W \<longleftrightarrow> station_map sf n = Some l"
    by (rule returns_stations)
  from inv have part: "inv_partition tasks sf" and load: "inv_load durations cycle sf"
    and stn: "inv_stations tasks sf" by (simp_all add: alloc_inv_def)
  note P = inv_partitionD[OF part] and S = inv_stationsD[OF stn]
  have dom: "fst ` set W = dom (station_map sf)"
    unfolding Ws by (simp add: dom_map_of_conv_image_fst)
  have "card (assigned sf) = length tasks"
    using a returns_invariant[OF assms] by (metis distinct_card)
  with S(4) ne Ws have cur: "station_map sf (ws sf) \<noteq> None" by auto
  have "dom (station_map sf) = {1..ws sf}"
  proof (rule set_eqI)
    fix n
    show "n \<in> dom (station_map sf) \<longleftrightarrow> n \<in> {1..ws sf}"
    proof
      assume "n \<in> dom (station_map sf)"
      then obtain l where "station_map sf n = Some l" by blast
      from P(4)[OF this] show "n \<in> {1..ws sf}" by simp
    next
      assume "n \<in> {1..ws sf}"
      then have "1 \<le> n" "n < ws sf \<or> n = ws sf" by auto
      with S(3)[of n] cur show "n \<in> dom (station_map sf)" by auto
    qed
  qed
  with dom S(2) m have keys: "fst ` set (station_times m) = fst ` set W" by simp
  have "\<forall>(n, l) \<in> set W. l \<noteq> [] \<and> map_of (station_times m) n = Some (station_load durations l)"
    using W0 inv_loadD(1)[OF load] P(4) m by fastforce
  with keys show ?thesis by blast
qed

theorem station_times_match_assignment_witness:
  "returns [''A'', ''B''] [(''A'', 8), (''B'', 5)] [(''A'', []), (''B'', [''A''])] 10
     LongestTaskTime [(1, [''A'']), (2, [''B''])]
     \<lparr>total_work_content = 13, cycle_time = 10, min_stations = 2,
        actual_stations = 2, idle_time = 7, efficiency = 65, balance_delay = 35,
        station_times = [(1, 8), (2, 5)]\<rparr>
   \<and> fst ` set [(1 :: nat, 8 :: rat), (2, 5)] = fst ` set [(1 :: nat, [''A'']), (2, [''B''])]
   \<and> map_of [(1 :: nat, 8 :: rat), (2, 5)] 2 = Some (station_load [(''A'', 8), (''B'', 5)] [''B''])"
  using station_times_match_assignment[OF run_AB] run_AB by simp

text \<open>
  C4. Precedence: whenever either script returns, a predecessor \<open>p\<close> of a task \<open>t\<close> placed
  in station \<open>n\<close> is itself placed, in a station \<open>n'\<close> with \<open>n' \<le> n\<close>, and when both are
  in the same station \<open>p\<close> stands before \<open>t\<close> in the station's task sequence. (By C2 the
  station of a task is unique, so these are the station numbers of \<open>t\<close> and \<open>p\<close>.)
\<close>

theorem predecessors_placed_no_later:
  assumes ret: "returns tasks durations predecessors cycle h W m"
    and nl: "(n, l) \<in> set W" and t: "t \<in> set l"
    and p: "p \<in> set (get_preds predecessors t)"
  shows "\<exists>n' l'. (n', l') \<in> set W \<and> p \<in> set l' \<and> n' \<le> n \<and>
           (n' = n \<longrightarrow> (\<exists>i j. i < j \<and> j < length l \<and> l ! i = p \<and> l ! j = t))"
proof -
  from ret obtain sf where inv: "alloc_inv tasks durations predecessors cycle sf"
    and W0: "\<forall>n l. (n, l) \<in> set W \<longleftrightarrow> station_map sf n = Some l"
    by (rule returns_stations)
  from inv have prec: "inv_prec predecessors sf" by (simp add: alloc_inv_def)
  from nl W0 have n: "station_map sf n = Some l" by blast
  from t obtain j where j: "j < length l" "l ! j = t"
    unfolding in_set_conv_nth by blast
  from p j have "p \<in> set (get_preds predecessors (l ! j))" by simp
  from inv_precD[OF prec n j(1) this] show ?thesis
  proof
    assume "\<exists>i<j. l ! i = p"
    then obtain i where i: "i < j" "l ! i = p" by blast
    with j have "i < length l" by simp
    with i have pl: "p \<in> set l" using nth_mem by blast
    from i j have "\<exists>i j. i < j \<and> j < length l \<and> l ! i = p \<and> l ! j = t" by blast
    with nl pl have "(n, l) \<in> set W \<and> p \<in> set l \<and> n \<le> n \<and>
           (n = n \<longrightarrow> (\<exists>i j. i < j \<and> j < length l \<and> l ! i = p \<and> l ! j = t))"
      by simp
    then show ?thesis by (intro exI)
  next
    assume "\<exists>n' l'. n' < n \<and> station_map sf n' = Some l' \<and> p \<in> set l'"
    then obtain n' l' where n': "n' < n" "station_map sf n' = Some l'" "p \<in> set l'"
      by blast
    with W0 have "(n', l') \<in> set W" by blast
    with n' have "(n', l') \<in> set W \<and> p \<in> set l' \<and> n' \<le> n \<and>
           (n' = n \<longrightarrow> (\<exists>i j. i < j \<and> j < length l \<and> l ! i = p \<and> l ! j = t))"
      by simp
    then show ?thesis by (intro exI)
  qed
qed

theorem predecessors_placed_no_later_witness:
  "returns [''A'', ''B''] [(''A'', 8), (''B'', 5)] [(''A'', []), (''B'', [''A''])] 10
     LongestTaskTime [(1, [''A'']), (2, [''B''])]
     \<lparr>total_work_content = 13, cycle_time = 10, min_stations = 2,
        actual_stations = 2, idle_time = 7, efficiency = 65, balance_delay = 35,
        station_times = [(1, 8), (2, 5)]\<rparr>
   \<and> (2, [''B'']) \<in> set [(1 :: nat, [''A'']), (2, [''B''])]
   \<and> ''B'' \<in> set [''B'']
   \<and> ''A'' \<in> set (get_preds [(''A'', []), (''B'', [''A''])] ''B'')
   \<and> (\<exists>n' l'. (n', l') \<in> set [(1 :: nat, [''A'']), (2, [''B''])] \<and> ''A'' \<in> set l' \<and> n' \<le> 2 \<and>
         (n' = 2 \<longrightarrow> (\<exists>i j. i < j \<and> j < length [''B''] \<and> [''B''] ! i = ''A'' \<and> [''B''] ! j = ''B'')))"
proof -
  have h: "(2, [''B'']) \<in> set [(1 :: nat, [''A'']), (2, [''B''])]" "''B'' \<in> set [''B'']"
    "''A'' \<in> set (get_preds [(''A'', []), (''B'', [''A''])] ''B'')"
    by (simp_all add: get_preds_def)
  from predecessors_placed_no_later[OF run_AB h] run_AB h show ?thesis
    by (intro conjI)
qed

text \<open>
  C7. The claim: \<^verbatim>\<open>min_stations\<close> is the exact ceiling of total work over cycle time. The
  code computes \<open>max 1 \<lfloor>(total + cycle - 0.01) / cycle\<rfloor>\<close>. With durations 1 and 0.005 and
  cycle time 1 the total work is 1.005, its ceiling is 2, and the code reports 1: the
  remainder 0.005 is below the code's epsilon.
\<close>

theorem min_stations_not_ceiling:
  "line_balancing_algorithm [''A'', ''B''] [(''A'', 1), (''B'', 1 / 200)] [] 1 LongestTaskTime =
     Some (Inr ([(1, [''A'']), (2, [''B''])],
                \<lparr>total_work_content = 201 / 200, cycle_time = 1, min_stations = 1,
                   actual_stations = 2, idle_time = 199 / 200, efficiency = 201 / 4,
                   balance_delay = 199 / 4, station_times = [(1, 1), (2, 1 / 200)]\<rparr>))
   \<and> \<lceil>(201 / 200 :: rat) / 1\<rceil> = 2"
  by (simp add: engine_defs alloc_loop.simps floor_unique ceiling_unique)

text \<open>
  C7, amended: whenever either script returns on an input with positive durations and a
  positive cycle time, on which the arithmetic is exact in doubles and the epsilon is
  harmless, the total work content is the sum of the task durations and \<^verbatim>\<open>min_stations\<close> is
  the exact ceiling of total work over cycle time. The hypothesis \<open>exact_in_doubles\<close>
  keeps the statement to the inputs on which the code computes the numbers of the model;
  the proof itself is in exact arithmetic.
\<close>

theorem min_stations_ceiling_when_epsilon_harmless:
  assumes ret: "returns tasks durations predecessors cycle h W m"
    and inp: "positive_input tasks durations cycle"
    and dbl: "exact_in_doubles durations cycle"
    and eps: "epsilon_harmless (sum_list (map (duration durations) tasks)) cycle"
  shows "total_work_content m = sum_list (map (duration durations) tasks)
         \<and> min_stations m = \<lceil>sum_list (map (duration durations) tasks) / cycle\<rceil>"
proof -
  from inp have dk: "distinct (map fst durations)" and keys: "fst ` set durations = set tasks"
    and pos: "\<forall>d \<in> snd ` set durations. 0 < d" and cyc: "0 < cycle"
    by (simp_all add: positive_input_def)
  from ret obtain pw sf where
    ms: "min_stations m = max 1 \<lfloor>(sum_list (map snd durations) + cycle - 1 / 100) / cycle\<rfloor>"
    and tw: "total_work_content m = sum_list (map snd durations)"
    by (rule returns_final_state)
  from ret obtain sf where inv: "alloc_inv tasks durations predecessors cycle sf"
    and a: "assigned sf = set tasks" and dt: "distinct tasks"
    and Ws: "W = workstations sf" and ne: "W \<noteq> []"
    by (rule returns_invariant)
  from ne obtain n l where "(n, l) \<in> set W" by (cases W) auto
  with Ws inv have "station_map sf n = Some l"
    using inv_partitionD(3)[of tasks sf] by (simp add: alloc_inv_def)
  with inv have "l \<noteq> []" "set l \<subseteq> assigned sf"
    using inv_partitionD(4)[of tasks sf n l] by (simp_all add: alloc_inv_def)
  with a have "tasks \<noteq> []" by auto
  with keys have dne: "map snd durations \<noteq> []" by auto
  from pos have "\<forall>d \<in> set (map snd durations). 0 < d" by simp
  from sum_list_positive[OF this dne] have T: "0 < sum_list (map snd durations)" .
  note eq = total_work_over_tasks[OF dk dt keys]
  from eps have "epsilon_harmless (sum_list (map snd durations)) cycle" by (simp add: eq)
  from min_stations_is_ceiling[OF T cyc this] ms
  have "min_stations m = \<lceil>sum_list (map snd durations) / cycle\<rceil>" by simp
  with tw eq show ?thesis by simp
qed

theorem min_stations_ceiling_when_epsilon_harmless_witness:
  "returns [''A'', ''B''] [(''A'', 5 / 2), (''B'', 7 / 2)] [] 4 LongestTaskTime
     [(1, [''B'']), (2, [''A''])]
     \<lparr>total_work_content = 6, cycle_time = 4, min_stations = 2,
        actual_stations = 2, idle_time = 2, efficiency = 75, balance_delay = 25,
        station_times = [(1, 7 / 2), (2, 5 / 2)]\<rparr>
   \<and> positive_input [''A'', ''B''] [(''A'', 5 / 2), (''B'', 7 / 2)] 4
   \<and> exact_in_doubles [(''A'', 5 / 2), (''B'', 7 / 2)] 4
   \<and> epsilon_harmless (sum_list (map (duration [(''A'', 5 / 2), (''B'', 7 / 2)]) [''A'', ''B''])) 4
   \<and> (6 :: rat) = sum_list (map (duration [(''A'', 5 / 2), (''B'', 7 / 2)]) [''A'', ''B''])
   \<and> (2 :: int) = \<lceil>sum_list (map (duration [(''A'', 5 / 2), (''B'', 7 / 2)]) [''A'', ''B'']) / 4\<rceil>"
  using min_stations_ceiling_when_epsilon_harmless[OF run_halves halves_input] run_halves halves_input
  by (simp add: duration_def ceiling_unique)




end
